theory Spec2Isabelle
  imports Main "HOL-Library.Word"
begin

unbundle bit_operations_syntax

section \<open>The descriptor ring of \<^verbatim>\<open>ring_buffer.c\<close>\<close>

subsection \<open>Data model\<close>

text \<open>
  The C integers are fixed-width and unsigned, so they are words: every \<open>+\<close> and
  \<open>-\<close> below wraps around at the width of its type, as C's does.
\<close>

type_synonym u16 = "16 word"
type_synonym u32 = "32 word"
type_synonym u64 = "64 word"

text \<open>
  \<^verbatim>\<open>packet_desc_t\<close>. The field \<^verbatim>\<open>data\<close> is a pointer the ring never dereferences;
  its representation is left open as the type parameter \<open>'p\<close>.
\<close>

record 'p packet_desc =
  data :: 'p
  paddr :: u32
  len :: u16
  flags :: u16
  timestamp :: u64

text \<open>
  \<^verbatim>\<open>ring_buffer_t\<close>. The block that \<^verbatim>\<open>buffer\<close> points to is a list of slots; the
  fields \<^verbatim>\<open>mask\<close> and \<^verbatim>\<open>size\<close> are called \<open>mask_f\<close> and \<open>size_f\<close>
  here, since \<open>mask\<close> and \<open>size\<close> are constants of the library.
\<close>

record 'p ring_buffer =
  buffer :: "'p packet_desc list"
  head :: u32
  tail :: u32
  mask_f :: u32
  size_f :: u32

text \<open>
  An access outside an array is undefined behaviour in C. The model makes it a value:
  \<open>SlotOutOfBounds\<close> is an access to \<^verbatim>\<open>ring->buffer[k]\<close> beyond the allocated
  slots, \<open>ItemOutOfBounds\<close> a read of \<^verbatim>\<open>descs[i]\<close> beyond the caller's array.
\<close>

datatype fault = SlotOutOfBounds | ItemOutOfBounds

subsection \<open>Operations\<close>

text \<open>
  \<^verbatim>\<open>ring_init\<close> (lines 33-39). It returns nothing and checks nothing. The block that
  \<^verbatim>\<open>malloc\<close> returns holds \<^verbatim>\<open>size\<close> slots of indeterminate content: the argument
  \<open>mem\<close> gives that content, slot by slot. The allocation is taken to succeed.
\<close>

definition ring_init :: "(nat \<Rightarrow> 'p packet_desc) \<Rightarrow> u32 \<Rightarrow> 'p ring_buffer" where
  "ring_init mem sz =
     \<lparr>buffer = map mem [0..<unat sz], head = 0, tail = 0, mask_f = sz - 1, size_f = sz\<rparr>"

text \<open>\<^verbatim>\<open>ring_full\<close> (lines 44-46), \<^verbatim>\<open>ring_empty\<close> (51-53), \<^verbatim>\<open>ring_space\<close> (58-60).\<close>

definition ring_full :: "'p ring_buffer \<Rightarrow> bool" where
  "ring_full ring \<longleftrightarrow> ((head ring - tail ring) AND mask_f ring) = mask_f ring"

definition ring_empty :: "'p ring_buffer \<Rightarrow> bool" where
  "ring_empty ring \<longleftrightarrow> head ring = tail ring"

definition ring_space :: "'p ring_buffer \<Rightarrow> u32" where
  "ring_space ring = size_f ring - ((head ring - tail ring) AND mask_f ring) - 1"

text \<open>
  \<^verbatim>\<open>ring_enqueue\<close> (lines 66-79): the return value and the ring afterwards. The slot
  written is \<^verbatim>\<open>buffer[head]\<close>, with the stored index unmasked.
\<close>

definition ring_enqueue ::
  "'p ring_buffer \<Rightarrow> 'p packet_desc \<Rightarrow> fault + (bool \<times> 'p ring_buffer)" where
  "ring_enqueue ring desc =
     (if ring_full ring then Inr (False, ring)
      else
        let h = head ring in
        if unat h < length (buffer ring)
        then Inr (True, ring\<lparr>buffer := (buffer ring)[unat h := desc],
                              head := (h + 1) AND mask_f ring\<rparr>)
        else Inl SlotOutOfBounds)"

text \<open>
  \<^verbatim>\<open>ring_dequeue\<close> (lines 85-97). The second argument is the content of the caller's
  \<^verbatim>\<open>*desc\<close> before the call; the third component of the result is its content after.
\<close>

definition ring_dequeue ::
  "'p ring_buffer \<Rightarrow> 'p packet_desc \<Rightarrow> fault + (bool \<times> 'p ring_buffer \<times> 'p packet_desc)" where
  "ring_dequeue ring desc =
     (if ring_empty ring then Inr (False, ring, desc)
      else
        let t = tail ring in
        if unat t < length (buffer ring)
        then Inr (True, ring\<lparr>tail := (t + 1) AND mask_f ring\<rparr>, buffer ring ! unat t)
        else Inl SlotOutOfBounds)"

text \<open>
  \<^verbatim>\<open>ring_peek\<close> (lines 102-107) returns \<^verbatim>\<open>NULL\<close> or the address of slot \<^verbatim>\<open>tail\<close>:
  \<open>None\<close> or the index of that slot. It has no assignment, so it has no ring to return.
\<close>

definition ring_peek :: "'p ring_buffer \<Rightarrow> nat option" where
  "ring_peek ring = (if ring_empty ring then None else Some (unat (tail ring)))"

text \<open>
  The copy loop of \<^verbatim>\<open>ring_enqueue_bulk\<close> (lines 119-121), from counter \<open>i\<close> on. It
  stops since \<open>i < n\<close> keeps \<open>i + 1\<close> from wrapping.
\<close>

function enqueue_bulk_loop ::
  "'p packet_desc list \<Rightarrow> u32 \<Rightarrow> u32 \<Rightarrow> 'p packet_desc list \<Rightarrow> u32 \<Rightarrow> u32
     \<Rightarrow> fault + 'p packet_desc list" where
  "enqueue_bulk_loop buf h m descs i n =
     (if i < n then
        let k = unat ((h + i) AND m) in
        if length descs \<le> unat i then Inl ItemOutOfBounds
        else if length buf \<le> k then Inl SlotOutOfBounds
        else enqueue_bulk_loop (buf[k := descs ! unat i]) h m descs (i + 1) n
      else Inr buf)"
  by pat_completeness auto
termination
proof (relation "measure (\<lambda>(buf, h, m, descs, i, n). unat n - unat i)")
  show "wf (measure (\<lambda>(buf :: 'p packet_desc list, h :: u32, m :: u32,
      descs :: 'p packet_desc list, i :: u32, n :: u32). unat n - unat i))"
    by simp
next
  fix buf descs :: "'p packet_desc list" and h m i n :: u32 and k :: nat
  assume "i < n"
  then have "unat n - unat (i + 1) < unat n - unat i"
    by unat_arith
  then show "((buf[k := descs ! unat i], h, m, descs, i + 1, n), (buf, h, m, descs, i, n))
      \<in> measure (\<lambda>(buf, h, m, descs, i, n). unat n - unat i)"
    by simp
qed

declare enqueue_bulk_loop.simps [simp del]

text \<open>\<^verbatim>\<open>ring_enqueue_bulk\<close> (lines 112-127): the count returned and the ring afterwards.\<close>

definition ring_enqueue_bulk ::
  "'p ring_buffer \<Rightarrow> 'p packet_desc list \<Rightarrow> u32 \<Rightarrow> fault + (u32 \<times> 'p ring_buffer)" where
  "ring_enqueue_bulk ring descs count =
     (let space = ring_space ring;
          n = (if count < space then count else space)
      in if n = 0 then Inr (0, ring)
         else
           let h = head ring in
           case enqueue_bulk_loop (buffer ring) h (mask_f ring) descs 0 n of
             Inl e \<Rightarrow> Inl e
           | Inr buf \<Rightarrow> Inr (n, ring\<lparr>buffer := buf, head := (h + n) AND mask_f ring\<rparr>))"

text \<open>
  Concrete values for the examples: the descriptor of \<^verbatim>\<open>example_tx_processing\<close>
  (lines 137-143), with \<^verbatim>\<open>NULL\<close> as 0; a content for freshly allocated slots;
  descriptors that differ in their timestamp; and a ring of four slots with head 3 and
  tail 1, which three enqueues and one dequeue give.
\<close>

definition example_desc :: "nat packet_desc" where
  "example_desc = \<lparr>data = 0, paddr = 0x12345000, len = 1500, flags = 0x01, timestamp = 0\<rparr>"

definition example_mem :: "nat \<Rightarrow> nat packet_desc" where
  "example_mem i = \<lparr>data = i, paddr = 0, len = 0, flags = 0, timestamp = 0\<rparr>"

definition example_item :: "nat \<Rightarrow> nat packet_desc" where
  "example_item i = example_desc\<lparr>timestamp := of_nat i\<rparr>"

definition example_ring :: "nat ring_buffer" where
  "example_ring =
     \<lparr>buffer = [example_item 1, example_item 2, example_item 3, example_mem 3],
      head = 3, tail = 1, mask_f = 3, size_f = 4\<rparr>"

subsection \<open>Callers\<close>

text \<open>
  A producer that offers the descriptors of a list one after the other and records what
  each \<^verbatim>\<open>ring_enqueue\<close> returned; \<open>accepted\<close> keeps the descriptors whose call
  returned true.
\<close>

fun enqueue_seq ::
  "'p ring_buffer \<Rightarrow> 'p packet_desc list \<Rightarrow> fault + (bool list \<times> 'p ring_buffer)" where
  "enqueue_seq ring [] = Inr ([], ring)"
| "enqueue_seq ring (d # ds) =
     (case ring_enqueue ring d of
        Inl e \<Rightarrow> Inl e
      | Inr (ok, ring') \<Rightarrow>
          (case enqueue_seq ring' ds of
             Inl e \<Rightarrow> Inl e
           | Inr (oks, ring'') \<Rightarrow> Inr (ok # oks, ring'')))"

definition accepted :: "'a list \<Rightarrow> bool list \<Rightarrow> 'a list" where
  "accepted ds oks = map fst (filter snd (zip ds oks))"

text \<open>
  A consumer that calls \<^verbatim>\<open>ring_dequeue\<close> \<open>n\<close> times with the same output variable
  and collects the descriptor of every call that returned true.
\<close>

fun dequeue_seq ::
  "'p ring_buffer \<Rightarrow> 'p packet_desc \<Rightarrow> nat
     \<Rightarrow> fault + ('p packet_desc list \<times> 'p ring_buffer \<times> 'p packet_desc)" where
  "dequeue_seq ring desc 0 = Inr ([], ring, desc)"
| "dequeue_seq ring desc (Suc n) =
     (case ring_dequeue ring desc of
        Inl e \<Rightarrow> Inl e
      | Inr (ok, ring', desc') \<Rightarrow>
          (case dequeue_seq ring' desc' n of
             Inl e \<Rightarrow> Inl e
           | Inr (outs, ring'', desc'') \<Rightarrow>
               Inr ((if ok then desc' # outs else outs), ring'', desc'')))"

text \<open>
  Single calls in any order: \<open>run_calls\<close> performs them and counts the enqueues and
  the dequeues that returned true.
\<close>

datatype 'p call = Enqueue "'p packet_desc" | Dequeue

fun run_calls ::
  "'p ring_buffer \<Rightarrow> 'p packet_desc \<Rightarrow> 'p call list \<Rightarrow> fault + (nat \<times> nat \<times> 'p ring_buffer)" where
  "run_calls ring desc [] = Inr (0, 0, ring)"
| "run_calls ring desc (Enqueue d # cs) =
     (case ring_enqueue ring d of
        Inl e \<Rightarrow> Inl e
      | Inr (ok, ring') \<Rightarrow>
          (case run_calls ring' desc cs of
             Inl e \<Rightarrow> Inl e
           | Inr (k, j, ring'') \<Rightarrow> Inr ((if ok then Suc k else k), j, ring'')))"
| "run_calls ring desc (Dequeue # cs) =
     (case ring_dequeue ring desc of
        Inl e \<Rightarrow> Inl e
      | Inr (ok, ring', desc') \<Rightarrow>
          (case run_calls ring' desc' cs of
             Inl e \<Rightarrow> Inl e
           | Inr (k, j, ring'') \<Rightarrow> Inr (k, (if ok then Suc j else j), ring'')))"

text \<open>
  The rings a program can hold: what \<^verbatim>\<open>ring_init\<close> built for \<open>sz\<close> slots, and what
  any of the three mutating operations made of such a ring.
\<close>

inductive reachable :: "u32 \<Rightarrow> 'p ring_buffer \<Rightarrow> bool" for sz :: u32 where
  init: "reachable sz (ring_init mem sz)"
| enqueue: "reachable sz ring \<Longrightarrow> ring_enqueue ring desc = Inr (ok, ring')
     \<Longrightarrow> reachable sz ring'"
| dequeue: "reachable sz ring \<Longrightarrow> ring_dequeue ring desc = Inr (ok, ring', desc')
     \<Longrightarrow> reachable sz ring'"
| enqueue_bulk: "reachable sz ring \<Longrightarrow> ring_enqueue_bulk ring descs count = Inr (n, ring')
     \<Longrightarrow> reachable sz ring'"

subsection \<open>Well-formed rings and their content\<close>

text \<open>
  The source asks for a size that is a power of two (line 12, line 38). In 32 bits
  these are \<open>2 ^ 0\<close> to \<open>2 ^ 31\<close>.
\<close>

definition is_pow2 :: "u32 \<Rightarrow> bool" where
  "is_pow2 sz \<longleftrightarrow> (\<exists>k \<in> set [0..<32]. sz = 2 ^ k)"

text \<open>
  A well-formed ring: the fields are related as \<^verbatim>\<open>ring_init\<close> sets them for a power of
  two, the block has \<^verbatim>\<open>size\<close> slots, and both indices are below \<^verbatim>\<open>size\<close>.
\<close>

definition ring_inv :: "'p ring_buffer \<Rightarrow> bool" where
  "ring_inv ring \<longleftrightarrow>
     is_pow2 (size_f ring) \<and> mask_f ring = size_f ring - 1 \<and>
     length (buffer ring) = unat (size_f ring) \<and>
     head ring < size_f ring \<and> tail ring < size_f ring"

text \<open>
  The descriptors in flight, oldest first: the slots from \<^verbatim>\<open>tail\<close> up to, not including,
  \<^verbatim>\<open>head\<close>, around the end of the block. Their number is \<^verbatim>\<open>(head - tail) & mask\<close>,
  the term that \<^verbatim>\<open>ring_full\<close> and \<^verbatim>\<open>ring_space\<close> compute. This is a function of
  the specification, used for well-formed rings only, where every slot it reads exists.
\<close>

definition ring_contents :: "'p ring_buffer \<Rightarrow> 'p packet_desc list" where
  "ring_contents ring =
     map (\<lambda>i. buffer ring ! ((unat (tail ring) + i) mod unat (size_f ring)))
       [0..<unat ((head ring - tail ring) AND mask_f ring)]"

text \<open>
  What \<^verbatim>\<open>ring_init\<close> and the masked updates give for any size \<open>sz\<close>, also one that
  is no power of two: the fields agree with \<open>sz\<close> and both indices are at most the mask.
\<close>

definition ring_bounds :: "u32 \<Rightarrow> 'p ring_buffer \<Rightarrow> bool" where
  "ring_bounds sz ring \<longleftrightarrow>
     size_f ring = sz \<and> mask_f ring = sz - 1 \<and> length (buffer ring) = unat sz \<and>
     head ring \<le> mask_f ring \<and> tail ring \<le> mask_f ring"

section \<open>Masked index arithmetic\<close>

text \<open>For a power of two, \<^verbatim>\<open>x & (size - 1)\<close> is \<open>x mod size\<close>, and the wrap-around
  at 32 bits does not show, since the size divides \<open>2 ^ 32\<close>.\<close>

lemma unat_pow2_u32:
  assumes "k < 32"
  shows "unat (2 ^ k :: u32) = 2 ^ k"
proof -
  have "unat (2 ^ k :: u32) = unat (of_nat (2 ^ k) :: u32)"
    by simp
  also have "\<dots> = 2 ^ k mod 2 ^ LENGTH(32)"
    by (rule unat_of_nat)
  also have "\<dots> = 2 ^ k"
  proof -
    have "k < LENGTH(32)" using assms by simp
    then have "(2::nat) ^ k < 2 ^ LENGTH(32)"
      by (rule power_strict_increasing) simp
    then show ?thesis by (rule mod_less)
  qed
  finally show ?thesis .
qed

lemma is_pow2_obtain:
  assumes "is_pow2 sz"
  obtains k where "k < 32" "sz = 2 ^ k" "unat sz = 2 ^ k"
proof -
  from assms obtain k where k: "k < 32" "sz = 2 ^ k"
    by (auto simp: is_pow2_def)
  then have "unat sz = 2 ^ k" by (simp add: unat_pow2_u32)
  with k show ?thesis using that by blast
qed

lemma unat_and_mask_pow2:
  assumes "is_pow2 sz"
  shows "unat (x AND (sz - 1)) = unat x mod unat sz"
proof -
  from assms obtain k where k: "k < 32" "sz = 2 ^ k" "unat sz = 2 ^ k"
    by (rule is_pow2_obtain)
  have "x AND (sz - 1) = take_bit k x"
    by (simp only: k take_bit_eq_mask mask_eq_decr_exp)
  then have "unat (x AND (sz - 1)) = take_bit k (unat x)"
    by (simp only: unsigned_take_bit_eq)
  then show ?thesis
    by (simp only: k(3) take_bit_eq_mod)
qed

lemma pow2_dvd_word_size:
  assumes "is_pow2 sz"
  shows "unat sz dvd 2 ^ LENGTH(32)" and "0 < unat sz"
proof -
  from assms obtain k where k: "k < 32" "sz = 2 ^ k" "unat sz = 2 ^ k"
    by (rule is_pow2_obtain)
  have "k \<le> LENGTH(32)" using k by simp
  then show "unat sz dvd 2 ^ LENGTH(32)" by (simp only: k(3) le_imp_power_dvd)
  show "0 < unat sz" by (simp only: k(3) zero_less_power zero_less_numeral)
qed

lemma unat_add_mod_pow2:
  assumes "is_pow2 sz"
  shows "unat ((x + y) AND (sz - 1)) = (unat x + unat y) mod unat sz"
proof -
  have "unat ((x + y) AND (sz - 1)) = ((unat x + unat y) mod 2 ^ LENGTH(32)) mod unat sz"
    by (simp only: unat_and_mask_pow2 [OF assms] unat_word_ariths)
  also have "\<dots> = (unat x + unat y) mod unat sz"
    using pow2_dvd_word_size(1) [OF assms] by (rule mod_mod_cancel)
  finally show ?thesis .
qed

lemma unat_sub_mod_pow2:
  assumes "is_pow2 sz" and "unat y < unat sz"
  shows "unat ((x - y) AND (sz - 1)) = (unat x + unat sz - unat y) mod unat sz"
proof -
  define W :: nat where "W = 2 ^ LENGTH(32)"
  obtain q where q: "W = unat sz * q"
    using pow2_dvd_word_size(1) [OF assms(1)] by (auto simp: dvd_def W_def)
  have "0 < W" by (simp add: W_def)
  with q have "0 < q" by (cases q) simp_all
  then have Wq: "W = unat sz + unat sz * (q - 1)"
    by (cases q) (simp_all add: q)
  have "unat ((x - y) AND (sz - 1)) = unat (x - y) mod unat sz"
    by (simp only: unat_and_mask_pow2 [OF assms(1)])
  also have "\<dots> = (unat x + unat sz - unat y) mod unat sz"
  proof (cases "unat y \<le> unat x")
    case True
    then have "unat (x - y) = unat x - unat y"
      by (simp only: unat_sub_if_size if_True)
    moreover have "unat x + unat sz - unat y = (unat x - unat y) + unat sz"
      using True by simp
    ultimately show ?thesis by simp
  next
    case False
    then have "unat (x - y) = unat x + W - unat y"
      by (simp only: unat_sub_if_size word_size W_def if_False)
    also have "\<dots> = (unat x + unat sz - unat y) + unat sz * (q - 1)"
      using assms(2) by (simp only: Wq)
    finally show ?thesis by simp
  qed
  finally show ?thesis .
qed

lemma mod_count_cases:
  fixes h t N :: nat
  assumes "h < N" "t < N"
  shows "(h + N - t) mod N = (if t \<le> h then h - t else h + N - t)"
proof (cases "t \<le> h")
  case True
  then have "h + N - t = (h - t) + N" by simp
  then have "(h + N - t) mod N = (h - t) mod N" by simp
  with True assms show ?thesis by simp
next
  case False
  with assms show ?thesis by simp
qed

lemma mod_succ_cases:
  fixes x N :: nat
  assumes "x < N"
  shows "(x + 1) mod N = (if x + 1 = N then 0 else x + 1)"
  using assms by (auto simp: mod_if)

lemma mod_offset_count:
  fixes h t N :: nat
  assumes "h < N" "t < N"
  shows "(t + (h + N - t) mod N) mod N = h"
  using assms by (simp add: mod_count_cases mod_if)

lemma mod_offset_inj:
  fixes t i j N :: nat
  assumes "i < j" "j < N"
  shows "(t + i) mod N \<noteq> (t + j) mod N"
proof
  assume "(t + i) mod N = (t + j) mod N"
  then have "(t + j) mod N = (t + i) mod N" by simp
  moreover have "t + i \<le> t + j" using assms by simp
  ultimately have "N dvd (t + j) - (t + i)"
    by (simp only: mod_eq_dvd_iff_nat)
  then have "N dvd j - i" by simp
  moreover have "0 < j - i" using assms by simp
  ultimately have "N \<le> j - i" by (simp add: dvd_imp_le)
  with assms show False by simp
qed

lemma ring_inv_facts:
  assumes "ring_inv ring"
  shows "is_pow2 (size_f ring)" "mask_f ring = size_f ring - 1"
    "length (buffer ring) = unat (size_f ring)"
    "unat (head ring) < unat (size_f ring)" "unat (tail ring) < unat (size_f ring)"
    "0 < unat (size_f ring)"
  using assms pow2_dvd_word_size(2) [of "size_f ring"]
  by (simp_all add: ring_inv_def word_less_nat_alt)

lemma unat_mask_f:
  assumes "ring_inv ring"
  shows "unat (mask_f ring) = unat (size_f ring) - 1"
proof -
  have "size_f ring \<noteq> 0"
    using ring_inv_facts(6) [OF assms] by (auto simp: unat_eq_zero)
  then show ?thesis
    by (simp add: ring_inv_facts(2) [OF assms] unat_minus_one)
qed

lemma unat_count:
  assumes "ring_inv ring"
  shows "unat ((head ring - tail ring) AND mask_f ring)
    = (unat (head ring) + unat (size_f ring) - unat (tail ring)) mod unat (size_f ring)"
  using ring_inv_facts [OF assms]
  by (simp only: unat_sub_mod_pow2)

lemma length_ring_contents:
  "length (ring_contents ring) = unat ((head ring - tail ring) AND mask_f ring)"
  by (simp add: ring_contents_def)

lemma count_less_size:
  assumes "ring_inv ring"
  shows "length (ring_contents ring) < unat (size_f ring)"
  using ring_inv_facts(6) [OF assms]
  by (simp add: length_ring_contents unat_count [OF assms])

lemma ring_full_iff:
  assumes "ring_inv ring"
  shows "ring_full ring \<longleftrightarrow> length (ring_contents ring) = unat (size_f ring) - 1"
  by (simp add: ring_full_def word_unat_eq_iff unat_mask_f [OF assms] length_ring_contents)

lemma ring_empty_iff:
  assumes "ring_inv ring"
  shows "ring_empty ring \<longleftrightarrow> ring_contents ring = []"
proof -
  have "ring_empty ring \<longleftrightarrow> unat (head ring) = unat (tail ring)"
    by (simp add: ring_empty_def word_unat_eq_iff)
  also have "\<dots> \<longleftrightarrow> length (ring_contents ring) = 0"
    using ring_inv_facts(4,5) [OF assms]
    by (simp add: length_ring_contents unat_count [OF assms] mod_count_cases)
  finally show ?thesis by simp
qed

lemma unat_ring_space:
  assumes "ring_inv ring"
  shows "unat (ring_space ring) = unat (size_f ring) - 1 - length (ring_contents ring)"
proof -
  let ?c = "(head ring - tail ring) AND mask_f ring"
  have c: "unat ?c < unat (size_f ring)"
    using count_less_size [OF assms] by (simp add: length_ring_contents)
  then have "?c \<le> size_f ring" by (simp add: word_le_nat_alt)
  then have 1: "unat (size_f ring - ?c) = unat (size_f ring) - unat ?c"
    by (rule unat_sub)
  with c have "size_f ring - ?c \<noteq> 0" by (auto simp: unat_eq_zero)
  then have "unat (size_f ring - ?c - 1) = unat (size_f ring - ?c) - 1"
    by (rule unat_minus_one)
  with 1 show ?thesis
    by (simp add: ring_space_def length_ring_contents)
qed

section \<open>What each operation does to a well-formed ring\<close>

lemma count_after_enqueue:
  fixes h t N :: nat
  assumes "h < N" "t < N" "(h + N - t) mod N < N - 1"
  shows "((h + 1) mod N + N - t) mod N = (h + N - t) mod N + 1"
proof -
  have h': "(h + 1) mod N = (if h + 1 = N then 0 else h + 1)"
    using assms(1) by (rule mod_succ_cases)
  have "(h + 1) mod N < N" using assms(1) by simp
  then have "((h + 1) mod N + N - t) mod N =
      (if t \<le> (h + 1) mod N then (h + 1) mod N - t else (h + 1) mod N + N - t)"
    using assms(2) by (rule mod_count_cases)
  moreover note mod_count_cases [OF assms(1,2)]
  ultimately show ?thesis
    using assms unfolding h' by (simp split: if_splits)
qed

lemma count_after_dequeue:
  fixes h t N :: nat
  assumes "h < N" "t < N" "0 < (h + N - t) mod N"
  shows "(h + N - (t + 1) mod N) mod N = (h + N - t) mod N - 1"
proof -
  have t': "(t + 1) mod N = (if t + 1 = N then 0 else t + 1)"
    using assms(2) by (rule mod_succ_cases)
  have "(t + 1) mod N < N" using assms(2) by simp
  with assms(1) have "(h + N - (t + 1) mod N) mod N =
      (if (t + 1) mod N \<le> h then h - (t + 1) mod N else h + N - (t + 1) mod N)"
    by (rule mod_count_cases)
  moreover note mod_count_cases [OF assms(1,2)]
  ultimately show ?thesis
    using assms unfolding t' by (simp split: if_splits)
qed

lemma ring_init_inv:
  assumes "is_pow2 sz"
  shows "ring_inv (ring_init mem sz)" and "ring_contents (ring_init mem sz) = []"
proof -
  have "0 < unat sz" using assms by (rule pow2_dvd_word_size(2))
  then have "0 < sz" by (simp add: word_less_nat_alt)
  with assms show "ring_inv (ring_init mem sz)"
    by (simp add: ring_inv_def ring_init_def)
  show "ring_contents (ring_init mem sz) = []"
    by (simp add: ring_contents_def ring_init_def)
qed

lemma unat_index_succ:
  assumes "ring_inv ring"
  shows "unat ((x + 1) AND mask_f ring) = (unat x + 1) mod unat (size_f ring)"
  using ring_inv_facts(1) [OF assms]
  by (simp add: ring_inv_facts(2) [OF assms] unat_add_mod_pow2)

lemma ring_enqueue_full:
  assumes "ring_full ring"
  shows "ring_enqueue ring d = Inr (False, ring)"
  using assms by (simp add: ring_enqueue_def)

lemma ring_enqueue_not_full:
  assumes inv: "ring_inv ring" and nf: "\<not> ring_full ring"
  shows "\<exists>ring'. ring_enqueue ring d = Inr (True, ring') \<and> ring_inv ring' \<and>
    size_f ring' = size_f ring \<and> ring_contents ring' = ring_contents ring @ [d]"
proof -
  define N where "N = unat (size_f ring)"
  define h where "h = unat (head ring)"
  define t where "t = unat (tail ring)"
  define c where "c = (h + N - t) mod N"
  define ring' where
    "ring' = ring\<lparr>buffer := (buffer ring)[h := d], head := (head ring + 1) AND mask_f ring\<rparr>"
  note f = ring_inv_facts [OF inv, folded N_def h_def t_def]
  have len: "length (ring_contents ring) = c"
    by (simp add: length_ring_contents unat_count [OF inv] c_def N_def h_def t_def)
  have c: "c < N - 1"
    using nf count_less_size [OF inv] by (simp add: ring_full_iff [OF inv] len N_def)
  have h': "unat (head ring') = (h + 1) mod N"
    by (simp add: ring'_def unat_index_succ [OF inv] h_def N_def)
  have res: "ring_enqueue ring d = Inr (True, ring')"
    using nf f(3,4) by (simp add: ring_enqueue_def ring'_def Let_def h_def)
  have "head ring' < size_f ring'"
    using f(6) by (simp add: word_less_nat_alt h') (simp add: ring'_def N_def)
  then have inv': "ring_inv ring'"
    using inv by (simp add: ring_inv_def) (simp add: ring'_def)
  have c': "((h + 1) mod N + N - t) mod N = c + 1"
    using c unfolding c_def by (rule count_after_enqueue [OF f(4,5)])
  have len': "unat ((head ring' - tail ring') AND mask_f ring') = c + 1"
    using c' by (simp add: unat_count [OF inv'] h') (simp add: ring'_def N_def t_def)
  have slot: "(t + c) mod N = h"
    using f(4,5) by (simp add: c_def mod_offset_count)
  have old: "(buffer ring)[h := d] ! ((t + i) mod N) = buffer ring ! ((t + i) mod N)"
    if "i < c" for i
  proof -
    have "(t + i) mod N \<noteq> (t + c) mod N"
      using that c by (intro mod_offset_inj) simp_all
    then show ?thesis by (simp add: slot)
  qed
  have "ring_contents ring' =
      map (\<lambda>i. (buffer ring)[h := d] ! ((t + i) mod N)) [0..<c + 1]"
    by (simp only: ring_contents_def len') (simp add: ring'_def N_def t_def)
  also have "\<dots> = map (\<lambda>i. buffer ring ! ((t + i) mod N)) [0..<c] @ [d]"
    using f(3,4) by (simp add: old slot)
  also have "\<dots> = ring_contents ring @ [d]"
    using len by (simp add: ring_contents_def length_ring_contents N_def t_def)
  finally have "ring_contents ring' = ring_contents ring @ [d]" .
  moreover have "size_f ring' = size_f ring" by (simp add: ring'_def)
  ultimately show ?thesis using res inv' by blast
qed

lemma ring_dequeue_empty:
  assumes "ring_empty ring"
  shows "ring_dequeue ring out = Inr (False, ring, out)"
  using assms by (simp add: ring_dequeue_def)

lemma ring_dequeue_not_empty:
  assumes inv: "ring_inv ring" and ne: "\<not> ring_empty ring"
  shows "\<exists>ring'. ring_dequeue ring out = Inr (True, ring', hd (ring_contents ring)) \<and>
    ring_inv ring' \<and> size_f ring' = size_f ring \<and>
    ring_contents ring' = tl (ring_contents ring)"
proof -
  define N where "N = unat (size_f ring)"
  define h where "h = unat (head ring)"
  define t where "t = unat (tail ring)"
  define c where "c = (h + N - t) mod N"
  define ring' where "ring' = ring\<lparr>tail := (tail ring + 1) AND mask_f ring\<rparr>"
  note f = ring_inv_facts [OF inv, folded N_def h_def t_def]
  have len: "length (ring_contents ring) = c"
    by (simp add: length_ring_contents unat_count [OF inv] c_def N_def h_def t_def)
  have c: "0 < c"
    using ne by (simp add: ring_empty_iff [OF inv] flip: len)
  have t': "unat (tail ring') = (t + 1) mod N"
    by (simp add: ring'_def unat_index_succ [OF inv] t_def N_def)
  have cont: "ring_contents ring = map (\<lambda>i. buffer ring ! ((t + i) mod N)) [0..<c]"
    using len by (simp add: ring_contents_def length_ring_contents N_def t_def)
  have "hd (ring_contents ring) = buffer ring ! t"
    using c f(5) by (simp add: cont hd_map upt_conv_Cons)
  then have res: "ring_dequeue ring out = Inr (True, ring', hd (ring_contents ring))"
    using ne f(3,5) by (simp add: ring_dequeue_def ring'_def Let_def t_def)
  have "tail ring' < size_f ring'"
    using f(6) by (simp add: word_less_nat_alt t') (simp add: ring'_def N_def)
  then have inv': "ring_inv ring'"
    using inv by (simp add: ring_inv_def) (simp add: ring'_def)
  have c': "(h + N - (t + 1) mod N) mod N = c - 1"
    using c unfolding c_def by (rule count_after_dequeue [OF f(4,5)])
  have len': "unat ((head ring' - tail ring') AND mask_f ring') = c - 1"
    using c' by (simp add: unat_count [OF inv'] t') (simp add: ring'_def N_def h_def)
  have "ring_contents ring' =
      map (\<lambda>i. buffer ring ! (((t + 1) mod N + i) mod N)) [0..<c - 1]"
    by (simp only: ring_contents_def len' t') (simp add: ring'_def N_def)
  also have "\<dots> = map (\<lambda>i. buffer ring ! ((t + Suc i) mod N)) [0..<c - 1]"
    by (simp add: mod_add_left_eq)
  also have "\<dots> = tl (ring_contents ring)"
    by (rule nth_equalityI) (simp_all add: cont nth_tl)
  finally have "ring_contents ring' = tl (ring_contents ring)" .
  moreover have "size_f ring' = size_f ring" by (simp add: ring'_def)
  ultimately show ?thesis using res inv' by blast
qed

subsection \<open>Sequences of calls\<close>

lemma accepted_simps:
  "accepted [] oks = []"
  "accepted (d # ds) (ok # oks) = (if ok then d # accepted ds oks else accepted ds oks)"
  by (simp_all add: accepted_def)

lemma enqueue_seq_inv:
  assumes "ring_inv ring"
  shows "\<exists>oks ring'. enqueue_seq ring ds = Inr (oks, ring') \<and> length oks = length ds \<and>
    ring_inv ring' \<and> size_f ring' = size_f ring \<and>
    ring_contents ring' = ring_contents ring @ accepted ds oks"
  using assms
proof (induction ds arbitrary: ring)
  case Nil
  then show ?case by (simp add: accepted_simps)
next
  case (Cons d ds)
  show ?case
  proof (cases "ring_full ring")
    case True
    from Cons.IH [OF Cons.prems] obtain oks ring' where
      "enqueue_seq ring ds = Inr (oks, ring')" "length oks = length ds" "ring_inv ring'"
      "size_f ring' = size_f ring" "ring_contents ring' = ring_contents ring @ accepted ds oks"
      by blast
    then show ?thesis
      by (simp add: ring_enqueue_full [OF True] accepted_simps)
  next
    case False
    from ring_enqueue_not_full [OF Cons.prems False, of d] obtain ring1 where
      1: "ring_enqueue ring d = Inr (True, ring1)" "ring_inv ring1"
      "size_f ring1 = size_f ring" "ring_contents ring1 = ring_contents ring @ [d]"
      by blast
    from Cons.IH [OF 1(2)] obtain oks ring' where
      "enqueue_seq ring1 ds = Inr (oks, ring')" "length oks = length ds" "ring_inv ring'"
      "size_f ring' = size_f ring1" "ring_contents ring' = ring_contents ring1 @ accepted ds oks"
      by blast
    then show ?thesis
      by (simp add: 1 accepted_simps)
  qed
qed

lemma enqueue_seq_fits:
  assumes "ring_inv ring"
    and "length (ring_contents ring) + length ds \<le> unat (size_f ring) - 1"
  shows "\<exists>ring'. enqueue_seq ring ds = Inr (replicate (length ds) True, ring') \<and>
    ring_inv ring' \<and> size_f ring' = size_f ring \<and>
    ring_contents ring' = ring_contents ring @ ds"
  using assms
proof (induction ds arbitrary: ring)
  case Nil
  then show ?case by simp
next
  case (Cons d ds)
  from Cons.prems have "\<not> ring_full ring"
    by (simp add: ring_full_iff)
  from ring_enqueue_not_full [OF Cons.prems(1) this, of d] obtain ring1 where
    1: "ring_enqueue ring d = Inr (True, ring1)" "ring_inv ring1"
    "size_f ring1 = size_f ring" "ring_contents ring1 = ring_contents ring @ [d]"
    by blast
  with Cons.prems(2)
  have "length (ring_contents ring1) + length ds \<le> unat (size_f ring1) - 1"
    by simp
  from Cons.IH [OF 1(2) this] obtain ring' where
    "enqueue_seq ring1 ds = Inr (replicate (length ds) True, ring')" "ring_inv ring'"
    "size_f ring' = size_f ring1" "ring_contents ring' = ring_contents ring1 @ ds"
    by blast
  then show ?case
    by (simp add: 1)
qed

lemma dequeue_seq_inv:
  assumes "ring_inv ring"
  shows "\<exists>ring' out'. dequeue_seq ring out n = Inr (take n (ring_contents ring), ring', out') \<and>
    ring_inv ring' \<and> size_f ring' = size_f ring \<and>
    ring_contents ring' = drop n (ring_contents ring)"
  using assms
proof (induction n arbitrary: ring out)
  case 0
  then show ?case by simp
next
  case (Suc n)
  show ?case
  proof (cases "ring_empty ring")
    case True
    then have e: "ring_contents ring = []"
      by (simp add: ring_empty_iff [OF Suc.prems])
    from Suc.IH [OF Suc.prems, of out] show ?thesis
      by (auto simp: ring_dequeue_empty [OF True] e)
  next
    case False
    then have ne: "ring_contents ring \<noteq> []"
      by (simp add: ring_empty_iff [OF Suc.prems])
    from ring_dequeue_not_empty [OF Suc.prems False, of out] obtain ring1 where
      1: "ring_dequeue ring out = Inr (True, ring1, hd (ring_contents ring))" "ring_inv ring1"
      "size_f ring1 = size_f ring" "ring_contents ring1 = tl (ring_contents ring)"
      by blast
    from Suc.IH [OF 1(2), of "hd (ring_contents ring)"] obtain ring' out' where
      "dequeue_seq ring1 (hd (ring_contents ring)) n = Inr (take n (ring_contents ring1), ring', out')"
      "ring_inv ring'" "size_f ring' = size_f ring1"
      "ring_contents ring' = drop n (ring_contents ring1)"
      by blast
    then show ?thesis
      using ne by (cases "ring_contents ring") (simp_all add: 1 drop_Suc)
  qed
qed

lemma run_calls_inv:
  assumes "ring_inv ring"
  shows "\<exists>k j ring'. run_calls ring out cs = Inr (k, j, ring') \<and>
    ring_inv ring' \<and> size_f ring' = size_f ring \<and>
    length (ring_contents ring') + j = length (ring_contents ring) + k"
  using assms
proof (induction cs arbitrary: ring out)
  case Nil
  then show ?case by simp
next
  case (Cons c cs)
  show ?case
  proof (cases c)
    case (Enqueue d)
    show ?thesis
    proof (cases "ring_full ring")
      case True
      from Cons.IH [OF Cons.prems, of out] show ?thesis
        by (auto simp: Enqueue ring_enqueue_full [OF True])
    next
      case False
      from ring_enqueue_not_full [OF Cons.prems False, of d] obtain ring1 where
        1: "ring_enqueue ring d = Inr (True, ring1)" "ring_inv ring1"
        "size_f ring1 = size_f ring" "ring_contents ring1 = ring_contents ring @ [d]"
        by blast
      from Cons.IH [OF 1(2), of out] show ?thesis
        by (auto simp: Enqueue 1)
    qed
  next
    case Dequeue
    show ?thesis
    proof (cases "ring_empty ring")
      case True
      from Cons.IH [OF Cons.prems, of out] show ?thesis
        by (auto simp: Dequeue ring_dequeue_empty [OF True])
    next
      case False
      then have ne: "ring_contents ring \<noteq> []"
        by (simp add: ring_empty_iff [OF Cons.prems])
      from ring_dequeue_not_empty [OF Cons.prems False, of out] obtain ring1 where
        1: "ring_dequeue ring out = Inr (True, ring1, hd (ring_contents ring))" "ring_inv ring1"
        "size_f ring1 = size_f ring" "ring_contents ring1 = tl (ring_contents ring)"
        by blast
      from Cons.IH [OF 1(2), of "hd (ring_contents ring)"] ne show ?thesis
        by (auto simp: Dequeue 1)
    qed
  qed
qed

subsection \<open>The bulk copy\<close>

lemma count_after_bulk:
  fixes h t N n :: nat
  assumes "t < N" "(h + N - t) mod N + n < N"
  shows "((h + n) mod N + N - t) mod N = (h + N - t) mod N + n"
proof -
  have "(h + n) mod N + N - t = (h + n) mod N + (N - t)"
    using assms(1) by simp
  then have "((h + n) mod N + N - t) mod N = (h + n + (N - t)) mod N"
    by (simp add: mod_add_left_eq)
  also have "h + n + (N - t) = (h + N - t) + n"
    using assms(1) by simp
  also have "((h + N - t) + n) mod N = ((h + N - t) mod N + n) mod N"
    by (simp add: mod_add_left_eq)
  also have "\<dots> = (h + N - t) mod N + n"
    using assms(2) by simp
  finally show ?thesis .
qed

lemma enqueue_bulk_loop_result:
  assumes "is_pow2 sz" and "m = sz - 1" and "length buf = unat sz"
    and "unat n \<le> length descs" and "i \<le> n" and "unat n \<le> unat sz"
  shows "\<exists>buf'. enqueue_bulk_loop buf h m descs i n = Inr buf' \<and> length buf' = length buf \<and>
    (\<forall>j. unat i \<le> j \<and> j < unat n \<longrightarrow> buf' ! ((unat h + j) mod unat sz) = descs ! j) \<and>
    (\<forall>s. (\<forall>j. unat i \<le> j \<and> j < unat n \<longrightarrow> s \<noteq> (unat h + j) mod unat sz)
       \<longrightarrow> buf' ! s = buf ! s)"
  using assms
proof (induction buf h m descs i n rule: enqueue_bulk_loop.induct)
  case (1 buf h m descs i n)
  show ?case
  proof (cases "i < n")
    case False
    with "1.prems"(5) have "i = n" by simp
    then show ?thesis
      by (subst enqueue_bulk_loop.simps) auto
  next
    case True
    define k where "k = unat ((h + i) AND m)"
    have k: "k = (unat h + unat i) mod unat sz"
      by (simp only: k_def "1.prems"(2) unat_add_mod_pow2 [OF "1.prems"(1)])
    have N: "0 < unat sz"
      using "1.prems"(1) by (rule pow2_dvd_word_size(2))
    then have kN: "k < length buf"
      by (simp add: k "1.prems"(3))
    have i: "unat i < unat n" "unat (i + 1) = unat i + 1" "i + 1 \<le> n"
      using True by unat_arith+
    then have id: "unat i < length descs"
      using "1.prems"(4) by simp
    have "\<exists>buf'. enqueue_bulk_loop (buf[k := descs ! unat i]) h m descs (i + 1) n = Inr buf' \<and>
      length buf' = length (buf[k := descs ! unat i]) \<and>
      (\<forall>j. unat (i + 1) \<le> j \<and> j < unat n \<longrightarrow> buf' ! ((unat h + j) mod unat sz) = descs ! j) \<and>
      (\<forall>s. (\<forall>j. unat (i + 1) \<le> j \<and> j < unat n \<longrightarrow> s \<noteq> (unat h + j) mod unat sz)
         \<longrightarrow> buf' ! s = buf[k := descs ! unat i] ! s)"
      using True id kN "1.prems" i(3)
      by (intro "1.IH" [OF True k_def]) simp_all
    then obtain buf' where
      r: "enqueue_bulk_loop (buf[k := descs ! unat i]) h m descs (i + 1) n = Inr buf'"
      and l: "length buf' = length buf"
      and w: "\<And>j. unat i + 1 \<le> j \<Longrightarrow> j < unat n
        \<Longrightarrow> buf' ! ((unat h + j) mod unat sz) = descs ! j"
      and u: "\<And>s. (\<And>j. unat i + 1 \<le> j \<Longrightarrow> j < unat n \<Longrightarrow> s \<noteq> (unat h + j) mod unat sz)
        \<Longrightarrow> buf' ! s = buf[k := descs ! unat i] ! s"
      unfolding i(2) by auto
    have res: "enqueue_bulk_loop buf h m descs i n = Inr buf'"
      using True id kN r
      by (subst enqueue_bulk_loop.simps) (simp add: k_def Let_def)
    have later: "k \<noteq> (unat h + j) mod unat sz" if "unat i + 1 \<le> j" "j < unat n" for j
      unfolding k using that "1.prems"(6) by (intro mod_offset_inj) simp_all
    have first: "buf' ! k = descs ! unat i"
      using u [of k] later kN by simp
    have written: "buf' ! ((unat h + j) mod unat sz) = descs ! j"
      if "unat i \<le> j" "j < unat n" for j
    proof (cases "j = unat i")
      case True
      then show ?thesis using first by (simp add: k)
    next
      case False
      with that show ?thesis by (intro w) simp_all
    qed
    have unchanged: "buf' ! s = buf ! s"
      if "\<And>j. unat i \<le> j \<Longrightarrow> j < unat n \<Longrightarrow> s \<noteq> (unat h + j) mod unat sz" for s
    proof -
      have "s \<noteq> k" using that [of "unat i"] i(1) by (simp add: k)
      moreover have "buf' ! s = buf[k := descs ! unat i] ! s"
        using that by (intro u) simp
      ultimately show ?thesis by simp
    qed
    from res l written unchanged show ?thesis by blast
  qed
qed

lemma enqueue_bulk_loop_length:
  "enqueue_bulk_loop buf h m descs i n = Inr buf' \<Longrightarrow> length buf' = length buf"
proof (induction buf h m descs i n rule: enqueue_bulk_loop.induct)
  case (1 buf h m descs i n)
  show ?case
  proof (cases "i < n")
    case False
    with "1.prems" show ?thesis
      by (subst (asm) enqueue_bulk_loop.simps) simp
  next
    case True
    define k where "k = unat ((h + i) AND m)"
    from "1.prems" True have ok: "\<not> length descs \<le> unat i" "\<not> length buf \<le> k"
      and r: "enqueue_bulk_loop (buf[k := descs ! unat i]) h m descs (i + 1) n = Inr buf'"
      by (subst (asm) enqueue_bulk_loop.simps, simp add: k_def Let_def split: if_splits)+
    from "1.IH" [OF True k_def ok r] show ?thesis by simp
  qed
qed

lemma enqueue_bulk_loop_items:
  "enqueue_bulk_loop buf h m descs i n = Inr buf' \<Longrightarrow> i < n \<Longrightarrow> unat n \<le> length descs"
proof (induction buf h m descs i n rule: enqueue_bulk_loop.induct)
  case (1 buf h m descs i n)
  define k where "k = unat ((h + i) AND m)"
  from "1.prems" have ok: "\<not> length descs \<le> unat i" "\<not> length buf \<le> k"
    and r: "enqueue_bulk_loop (buf[k := descs ! unat i]) h m descs (i + 1) n = Inr buf'"
    by (subst (asm) enqueue_bulk_loop.simps, simp add: k_def Let_def split: if_splits)+
  show ?case
  proof (cases "i + 1 < n")
    case True
    from "1.IH" [OF "1.prems"(2) k_def ok r True] show ?thesis .
  next
    case False
    with "1.prems"(2) have "unat n = unat i + 1" by unat_arith
    with ok(1) show ?thesis by simp
  qed
qed

lemma enqueue_bulk_loop_no_slot_fault:
  "unat m < length buf \<Longrightarrow> enqueue_bulk_loop buf h m descs i n \<noteq> Inl SlotOutOfBounds"
proof (induction buf h m descs i n rule: enqueue_bulk_loop.induct)
  case (1 buf h m descs i n)
  define k where "k = unat ((h + i) AND m)"
  have "(h + i) AND m \<le> m" by (rule word_and_le1)
  then have k: "k < length buf"
    using "1.prems" by (simp add: k_def word_le_nat_alt)
  show ?case
  proof (cases "i < n \<and> \<not> length descs \<le> unat i")
    case False
    then show ?thesis
      by (subst enqueue_bulk_loop.simps) (auto simp: Let_def)
  next
    case True
    then have "enqueue_bulk_loop (buf[k := descs ! unat i]) h m descs (i + 1) n
        \<noteq> Inl SlotOutOfBounds"
      using k "1.prems" by (intro "1.IH" [OF _ k_def]) simp_all
    then show ?thesis
      using True k by (subst enqueue_bulk_loop.simps) (simp add: Let_def k_def)
  qed
qed

lemma ring_enqueue_bulk_inv:
  assumes inv: "ring_inv ring"
    and descs: "unat (min count (ring_space ring)) \<le> length descs"
  shows "\<exists>ring'. ring_enqueue_bulk ring descs count = Inr (min count (ring_space ring), ring') \<and>
    ring_inv ring' \<and> size_f ring' = size_f ring \<and>
    (min count (ring_space ring) = 0 \<longrightarrow> ring' = ring) \<and>
    ring_contents ring' = ring_contents ring @ take (unat (min count (ring_space ring))) descs"
proof -
  define n where "n = min count (ring_space ring)"
  have n_if: "(if count < ring_space ring then count else ring_space ring) = n"
    by (auto simp: n_def min_def)
  show ?thesis
    unfolding n_def [symmetric]
  proof (cases "n = 0")
    case True
    then show "\<exists>ring'. ring_enqueue_bulk ring descs count = Inr (n, ring') \<and>
      ring_inv ring' \<and> size_f ring' = size_f ring \<and> (n = 0 \<longrightarrow> ring' = ring) \<and>
      ring_contents ring' = ring_contents ring @ take (unat n) descs"
      using inv by (simp add: ring_enqueue_bulk_def Let_def n_if)
  next
    case False
    define N where "N = unat (size_f ring)"
    define h where "h = unat (head ring)"
    define t where "t = unat (tail ring)"
    define c where "c = (h + N - t) mod N"
    note f = ring_inv_facts [OF inv, folded N_def h_def t_def]
    have len: "length (ring_contents ring) = c"
      by (simp add: length_ring_contents unat_count [OF inv] c_def N_def h_def t_def)
    have cN: "c < N"
      using count_less_size [OF inv] by (simp add: len N_def)
    have "n \<le> ring_space ring" by (simp add: n_def)
    then have "unat n \<le> N - 1 - c"
      by (simp add: word_le_nat_alt unat_ring_space [OF inv] len N_def)
    with cN have nN: "c + unat n < N" by simp
    then have nle: "unat n \<le> unat (size_f ring)" by (simp add: N_def)
    have nd: "unat n \<le> length descs" using descs by (simp add: n_def)
    note g = ring_inv_facts [OF inv]
    have "0 \<le> n" by simp
    from enqueue_bulk_loop_result [OF g(1,2,3) nd this nle, of "head ring"]
    obtain buf' where
      r: "enqueue_bulk_loop (buffer ring) (head ring) (mask_f ring) descs 0 n = Inr buf'"
      and l: "length buf' = length (buffer ring)"
      and w0: "\<forall>j. unat (0::u32) \<le> j \<and> j < unat n
        \<longrightarrow> buf' ! ((unat (head ring) + j) mod unat (size_f ring)) = descs ! j"
      and u0: "\<forall>s. (\<forall>j. unat (0::u32) \<le> j \<and> j < unat n
          \<longrightarrow> s \<noteq> (unat (head ring) + j) mod unat (size_f ring))
        \<longrightarrow> buf' ! s = buffer ring ! s"
      by (elim exE conjE)
    have w: "buf' ! ((h + j) mod N) = descs ! j" if "j < unat n" for j
      using w0 that by (simp add: h_def N_def)
    have u: "buf' ! s = buffer ring ! s" if "\<And>j. j < unat n \<Longrightarrow> s \<noteq> (h + j) mod N" for s
      using u0 [rule_format, of s] that by (simp add: h_def N_def)
    define ring' where "ring' = ring\<lparr>buffer := buf', head := (head ring + n) AND mask_f ring\<rparr>"
    have res: "ring_enqueue_bulk ring descs count = Inr (n, ring')"
      using False by (simp add: ring_enqueue_bulk_def Let_def n_if r ring'_def)
    have h': "unat (head ring') = (h + unat n) mod N"
      by (simp add: ring'_def f(2) unat_add_mod_pow2 [OF f(1)] h_def N_def)
    have "head ring' < size_f ring'"
      using f(6) by (simp add: word_less_nat_alt h') (simp add: ring'_def N_def)
    then have inv': "ring_inv ring'"
      using inv l by (simp add: ring_inv_def) (simp add: ring'_def)
    have c': "((h + unat n) mod N + N - t) mod N = c + unat n"
      using nN unfolding c_def by (rule count_after_bulk [OF f(5)])
    have len': "unat ((head ring' - tail ring') AND mask_f ring') = c + unat n"
      using c' by (simp add: unat_count [OF inv'] h') (simp add: ring'_def N_def t_def)
    have slot: "(h + j) mod N = (t + (c + j)) mod N" for j
    proof -
      have "(t + (c + j)) mod N = ((t + c) mod N + j) mod N"
        by (simp only: mod_add_left_eq add.assoc)
      also have "(t + c) mod N = h"
        using f(4,5) by (simp add: c_def mod_offset_count)
      finally show ?thesis by simp
    qed
    have old: "buf' ! ((t + i) mod N) = buffer ring ! ((t + i) mod N)" if "i < c" for i
    proof (rule u)
      fix j assume "j < unat n"
      with that nN show "(t + i) mod N \<noteq> (h + j) mod N"
        unfolding slot by (intro mod_offset_inj) simp_all
    qed
    have new: "buf' ! ((t + i) mod N) = descs ! (i - c)" if "c \<le> i" "i < c + unat n" for i
    proof -
      from that have "c + (i - c) = i" by simp
      then have "(t + i) mod N = (h + (i - c)) mod N"
        using slot [of "i - c"] by simp
      moreover from that have "i - c < unat n" by simp
      ultimately show ?thesis by (simp only: w)
    qed
    have c1: "ring_contents ring = map (\<lambda>i. buffer ring ! ((t + i) mod N)) [0..<c]"
      using len by (simp add: ring_contents_def length_ring_contents N_def t_def)
    have c2: "ring_contents ring' = map (\<lambda>i. buf' ! ((t + i) mod N)) [0..<c + unat n]"
      by (simp only: ring_contents_def len') (simp add: ring'_def N_def t_def)
    have "ring_contents ring' = ring_contents ring @ take (unat n) descs"
    proof (rule nth_equalityI)
      show "length (ring_contents ring') = length (ring_contents ring @ take (unat n) descs)"
        using nd by (simp add: c1 c2)
    next
      fix i assume "i < length (ring_contents ring')"
      then have i: "i < c + unat n" by (simp add: c2)
      show "ring_contents ring' ! i = (ring_contents ring @ take (unat n) descs) ! i"
      proof (cases "i < c")
        case True
        with i show ?thesis by (simp add: c1 c2 nth_append old)
      next
        case False
        with i nd show ?thesis by (simp add: c1 c2 nth_append new)
      qed
    qed
    moreover have "size_f ring' = size_f ring" by (simp add: ring'_def)
    ultimately show "\<exists>ring'. ring_enqueue_bulk ring descs count = Inr (n, ring') \<and>
      ring_inv ring' \<and> size_f ring' = size_f ring \<and> (n = 0 \<longrightarrow> ring' = ring) \<and>
      ring_contents ring' = ring_contents ring @ take (unat n) descs"
      using res inv' False by blast
  qed
qed

subsection \<open>Reachable rings\<close>

lemma ring_enqueue_bulk_items:
  assumes "ring_enqueue_bulk ring descs count = Inr (n, ring')"
  shows "unat (min count (ring_space ring)) \<le> length descs"
proof -
  define k where "k = min count (ring_space ring)"
  have k_if: "(if count < ring_space ring then count else ring_space ring) = k"
    by (auto simp: k_def min_def)
  show ?thesis
    unfolding k_def [symmetric]
  proof (cases "k = 0")
    case True
    then show "unat k \<le> length descs" by simp
  next
    case False
    then have "0 < k" by (simp add: word_neq_0_conv)
    moreover from assms False obtain buf' where
      "enqueue_bulk_loop (buffer ring) (head ring) (mask_f ring) descs 0 k = Inr buf'"
      by (auto simp: ring_enqueue_bulk_def Let_def k_if split: sum.splits)
    ultimately show "unat k \<le> length descs"
      by (intro enqueue_bulk_loop_items)
  qed
qed

lemma reachable_inv:
  assumes "is_pow2 sz" and "reachable sz ring"
  shows "ring_inv ring \<and> size_f ring = sz"
  using assms(2)
proof (induction rule: reachable.induct)
  case (init mem)
  show ?case
    using ring_init_inv(1) [OF assms(1), of mem] by (simp add: ring_init_def)
next
  case (enqueue ring desc ok ring')
  then have inv: "ring_inv ring" and sz: "size_f ring = sz" by simp_all
  show ?case
  proof (cases "ring_full ring")
    case True
    with enqueue.hyps(2) inv sz show ?thesis
      by (simp add: ring_enqueue_full)
  next
    case False
    from ring_enqueue_not_full [OF inv False, of desc] enqueue.hyps(2) sz
    show ?thesis by auto
  qed
next
  case (dequeue ring desc ok ring' desc')
  then have inv: "ring_inv ring" and sz: "size_f ring = sz" by simp_all
  show ?case
  proof (cases "ring_empty ring")
    case True
    with dequeue.hyps(2) inv sz show ?thesis
      by (simp add: ring_dequeue_empty)
  next
    case False
    from ring_dequeue_not_empty [OF inv False, of desc] dequeue.hyps(2) sz
    show ?thesis by auto
  qed
next
  case (enqueue_bulk ring descs count n ring')
  then have inv: "ring_inv ring" and sz: "size_f ring = sz" by simp_all
  from ring_enqueue_bulk_inv [OF inv ring_enqueue_bulk_items [OF enqueue_bulk.hyps(2)]]
    enqueue_bulk.hyps(2) sz
  show ?case by auto
qed

lemma reachable_bounds:
  assumes "sz \<noteq> 0" and "reachable sz ring"
  shows "ring_bounds sz ring"
  using assms(2)
proof (induction rule: reachable.induct)
  case (init mem)
  show ?case by (simp add: ring_bounds_def ring_init_def)
next
  case (enqueue ring desc ok ring')
  have "(head ring + 1) AND mask_f ring \<le> mask_f ring" by (rule word_and_le1)
  with enqueue show ?case
    by (auto simp: ring_bounds_def ring_enqueue_def Let_def split: if_splits)
next
  case (dequeue ring desc ok ring' desc')
  have "(tail ring + 1) AND mask_f ring \<le> mask_f ring" by (rule word_and_le1)
  with dequeue show ?case
    by (auto simp: ring_bounds_def ring_dequeue_def Let_def split: if_splits)
next
  case (enqueue_bulk ring descs count n ring')
  have "(head ring + n) AND mask_f ring \<le> mask_f ring" by (rule word_and_le1)
  with enqueue_bulk show ?case
    by (auto simp: ring_bounds_def ring_enqueue_bulk_def Let_def
        dest: enqueue_bulk_loop_length split: if_splits sum.splits)
qed

lemma ring_bounds_mask:
  assumes "sz \<noteq> 0" and "ring_bounds sz ring"
  shows "unat (mask_f ring) < length (buffer ring)"
    and "head ring < size_f ring" and "tail ring < size_f ring"
proof -
  have m: "unat (mask_f ring) = unat sz - 1" and "0 < unat sz"
    using assms by (simp_all add: ring_bounds_def unat_minus_one unat_gt_0)
  then show "unat (mask_f ring) < length (buffer ring)"
    using assms(2) by (simp add: ring_bounds_def)
  from assms(2) have "unat (head ring) \<le> unat (mask_f ring)"
    and "unat (tail ring) \<le> unat (mask_f ring)" and "size_f ring = sz"
    by (auto simp: ring_bounds_def word_le_nat_alt)
  with m \<open>0 < unat sz\<close> show "head ring < size_f ring" "tail ring < size_f ring"
    by (simp_all add: word_less_nat_alt)
qed

subsection \<open>Concrete rings\<close>

text \<open>
  A ring of four slots after three enqueues and one dequeue, and the evaluation of the
  operations on numerals, for the examples below.
\<close>

lemmas ring_defs = ring_init_def ring_full_def ring_empty_def ring_space_def ring_enqueue_def
  ring_dequeue_def ring_peek_def example_mem_def example_desc_def example_item_def Let_def

lemma is_pow2_4: "is_pow2 4"
  unfolding is_pow2_def by (rule bexI [of _ 2]) simp_all

lemma reachable_init_4: "reachable 4 (ring_init example_mem 4)"
  by (rule reachable.init)

lemma reachable_example_ring: "reachable 4 example_ring"
proof -
  let ?r1 = "\<lparr>buffer = [example_item 1, example_mem 1, example_mem 2, example_mem 3],
    head = 1, tail = 0, mask_f = 3, size_f = 4\<rparr>"
  let ?r2 = "\<lparr>buffer = [example_item 1, example_item 2, example_mem 2, example_mem 3],
    head = 2, tail = 0, mask_f = 3, size_f = 4\<rparr>"
  let ?r3 = "\<lparr>buffer = [example_item 1, example_item 2, example_item 3, example_mem 3],
    head = 3, tail = 0, mask_f = 3, size_f = 4\<rparr>"
  have "ring_enqueue (ring_init example_mem 4) (example_item 1) = Inr (True, ?r1)"
    by (simp add: ring_defs upt_conv_Cons)
  from reachable.enqueue [OF reachable.init this] have 1: "reachable 4 ?r1" .
  have "ring_enqueue ?r1 (example_item 2) = Inr (True, ?r2)"
    by (simp add: ring_defs)
  from reachable.enqueue [OF 1 this] have 2: "reachable 4 ?r2" .
  have "ring_enqueue ?r2 (example_item 3) = Inr (True, ?r3)"
    by (simp add: ring_defs)
  from reachable.enqueue [OF 2 this] have 3: "reachable 4 ?r3" .
  have "ring_dequeue ?r3 example_desc = Inr (True, example_ring, example_item 1)"
    by (simp add: ring_defs example_ring_def)
  from reachable.dequeue [OF 3 this] show ?thesis .
qed

lemma example_ring_fields:
  "head example_ring = 3" "tail example_ring = 1" "mask_f example_ring = 3"
  "size_f example_ring = 4" "\<not> ring_full example_ring" "\<not> ring_empty example_ring"
  "ring_space example_ring = 1"
  by (simp_all add: example_ring_def ring_full_def ring_empty_def ring_space_def)

lemma example_ring_contents:
  "ring_contents example_ring = [example_item 2, example_item 3]"
  by (simp add: ring_contents_def example_ring_def upt_conv_Cons)

lemma dequeue_seq_numeral:
  "dequeue_seq ring desc (numeral v) =
     (case ring_dequeue ring desc of
        Inl e \<Rightarrow> Inl e
      | Inr (ok, ring', desc') \<Rightarrow>
          (case dequeue_seq ring' desc' (pred_numeral v) of
             Inl e \<Rightarrow> Inl e
           | Inr (outs, ring'', desc'') \<Rightarrow>
               Inr ((if ok then desc' # outs else outs), ring'', desc'')))"
  by (simp add: numeral_eq_Suc)

section \<open>Properties\<close>

subsection \<open>The empty ring\<close>

text \<open>
  C10. Whenever \<^verbatim>\<open>head == tail\<close>, \<^verbatim>\<open>ring_dequeue\<close> returns false and leaves the ring
  and the caller's output descriptor as they were, and \<^verbatim>\<open>ring_peek\<close> returns \<^verbatim>\<open>NULL\<close>;
  \<^verbatim>\<open>ring_peek\<close> assigns to nothing, so the ring is as it was after it too. This holds
  for every ring value, well-formed or not.
\<close>

theorem empty_ring_dequeue_peek:
  assumes "head ring = tail ring"
  shows "ring_dequeue ring desc = Inr (False, ring, desc) \<and> ring_peek ring = None"
  using assms by (simp add: ring_dequeue_def ring_peek_def ring_empty_def)

theorem empty_ring_dequeue_peek_witness:
  "head (ring_init example_mem 4) = tail (ring_init example_mem 4) \<and>
   ring_dequeue (ring_init example_mem 4) example_desc
     = Inr (False, ring_init example_mem 4, example_desc) \<and>
   ring_peek (ring_init example_mem 4) = None"
proof -
  have e: "head (ring_init example_mem 4) = tail (ring_init example_mem 4)"
    by (simp add: ring_init_def)
  show ?thesis
    using e empty_ring_dequeue_peek [OF e, of example_desc] by simp
qed

subsection \<open>First in, first out\<close>

text \<open>
  C1 (FIFO order). Take a ring built for a power-of-two size that is empty, let the
  producer offer any descriptors \<open>ds\<close>, then let the consumer call \<^verbatim>\<open>ring_dequeue\<close>
  \<open>n\<close> times. No call faults, and the descriptors the consumer gets are the first
  \<open>n\<close> of those the producer's calls accepted, in the order they were offered; all of
  them once \<open>n\<close> reaches their number.
\<close>

theorem fifo_order:
  assumes "is_pow2 sz" and "reachable sz ring" and "ring_empty ring"
  shows "\<exists>oks ring1 ring2 desc'.
    enqueue_seq ring ds = Inr (oks, ring1) \<and> length oks = length ds \<and>
    dequeue_seq ring1 desc n = Inr (take n (accepted ds oks), ring2, desc')"
proof -
  from reachable_inv [OF assms(1,2)] have inv: "ring_inv ring" by simp
  with assms(3) have e: "ring_contents ring = []"
    by (simp add: ring_empty_iff)
  from enqueue_seq_inv [OF inv, of ds] obtain oks ring1 where
    1: "enqueue_seq ring ds = Inr (oks, ring1)" "length oks = length ds" "ring_inv ring1"
    "ring_contents ring1 = accepted ds oks"
    by (auto simp: e)
  from dequeue_seq_inv [OF 1(3), of desc n] obtain ring2 desc' where
    "dequeue_seq ring1 desc n = Inr (take n (accepted ds oks), ring2, desc')"
    by (auto simp: 1(4))
  with 1(1,2) show ?thesis by blast
qed

text \<open>
  Four slots: of four descriptors offered the first three are accepted, and five
  dequeues return these three in order.
\<close>

theorem fifo_order_witness:
  "is_pow2 4 \<and> reachable 4 (ring_init example_mem 4) \<and>
   ring_empty (ring_init example_mem 4) \<and>
   (\<exists>ring1 ring2 desc'.
      enqueue_seq (ring_init example_mem 4)
        [example_item 1, example_item 2, example_item 3, example_item 4]
        = Inr ([True, True, True, False], ring1) \<and>
      dequeue_seq ring1 example_desc 5
        = Inr ([example_item 1, example_item 2, example_item 3], ring2, desc'))"
proof -
  let ?ds = "[example_item 1, example_item 2, example_item 3, example_item 4]"
  let ?r = "\<lparr>buffer = [example_item 1, example_item 2, example_item 3, example_mem 3],
    head = 3, tail = 0, mask_f = 3, size_f = 4\<rparr>"
  have e: "ring_empty (ring_init example_mem 4)"
    by (simp add: ring_init_def ring_empty_def)
  have s: "enqueue_seq (ring_init example_mem 4) ?ds = Inr ([True, True, True, False], ?r)"
    by (simp add: ring_defs upt_conv_Cons)
  from fifo_order [OF is_pow2_4 reachable_init_4 e, of ?ds example_desc 5]
  obtain oks ring1 ring2 desc' where
    a: "enqueue_seq (ring_init example_mem 4) ?ds = Inr (oks, ring1)" and
    b: "dequeue_seq ring1 example_desc 5 = Inr (take 5 (accepted ?ds oks), ring2, desc')"
    by blast
  from a [unfolded s] have c: "oks = [True, True, True, False]" "ring1 = ?r"
    by simp_all
  have "take 5 (accepted ?ds [True, True, True, False])
      = [example_item 1, example_item 2, example_item 3]"
    by (simp add: accepted_def)
  with b have "dequeue_seq ?r example_desc 5
      = Inr ([example_item 1, example_item 2, example_item 3], ring2, desc')"
    by (simp only: c)
  with s is_pow2_4 reachable_init_4 e show ?thesis by blast
qed

subsection \<open>Capacity\<close>

text \<open>
  C2 (capacity bound). For a ring built for a power-of-two size \<open>C\<close> that is empty,
  \<open>C - 1\<close> enqueues in a row all return true; the ring is then full, and one more
  enqueue returns false and leaves the ring as it is.
\<close>

theorem capacity_bound:
  assumes "is_pow2 sz" and "reachable sz ring" and "ring_empty ring"
    and "length ds = unat sz - 1"
  shows "\<exists>ring'. enqueue_seq ring ds = Inr (replicate (unat sz - 1) True, ring') \<and>
    ring_full ring' \<and> ring_enqueue ring' d = Inr (False, ring')"
proof -
  from reachable_inv [OF assms(1,2)] have inv: "ring_inv ring" and sz: "size_f ring = sz"
    by simp_all
  with assms(3) have e: "ring_contents ring = []"
    by (simp add: ring_empty_iff)
  have "length (ring_contents ring) + length ds \<le> unat (size_f ring) - 1"
    by (simp add: e sz assms(4))
  from enqueue_seq_fits [OF inv this] obtain ring' where
    1: "enqueue_seq ring ds = Inr (replicate (unat sz - 1) True, ring')" "ring_inv ring'"
    "size_f ring' = sz" "ring_contents ring' = ds"
    by (auto simp: e sz assms(4))
  then have "ring_full ring'"
    by (simp add: ring_full_iff assms(4))
  with 1(1) show ?thesis
    by (simp add: ring_enqueue_full)
qed

text \<open>Four slots hold three descriptors; the fourth is refused.\<close>

theorem capacity_bound_witness:
  "is_pow2 4 \<and> reachable 4 (ring_init example_mem 4) \<and>
   ring_empty (ring_init example_mem 4) \<and>
   length [example_item 1, example_item 2, example_item 3] = unat (4 :: u32) - 1 \<and>
   (\<exists>ring'.
      enqueue_seq (ring_init example_mem 4) [example_item 1, example_item 2, example_item 3]
        = Inr ([True, True, True], ring') \<and>
      ring_full ring' \<and> ring_enqueue ring' (example_item 4) = Inr (False, ring'))"
proof -
  have e: "ring_empty (ring_init example_mem 4)"
    by (simp add: ring_init_def ring_empty_def)
  have l: "length [example_item 1, example_item 2, example_item 3] = unat (4 :: u32) - 1"
    by simp
  have "unat (4 :: u32) - 1 = 3" by simp
  then have r: "replicate (unat (4 :: u32) - 1) True = [True, True, True]"
    by (simp only: numeral_3_eq_3 replicate.simps)
  from capacity_bound [OF is_pow2_4 reachable_init_4 e l, of "example_item 4"]
  show ?thesis
    unfolding r using is_pow2_4 reachable_init_4 e l by blast
qed

subsection \<open>Construction\<close>

text \<open>
  C3 (config validation), as the code has it. \<^verbatim>\<open>ring_init\<close> has no check and no way to
  report one: for every size it sets both indices to 0, stores the size and
  \<^verbatim>\<open>size - 1\<close> as the mask, and allocates \<^verbatim>\<open>size\<close> slots. For size 8 the free space is 7.
\<close>

theorem ring_init_no_validation:
  "head (ring_init mem sz) = 0 \<and> tail (ring_init mem sz) = 0 \<and>
   size_f (ring_init mem sz) = sz \<and> mask_f (ring_init mem sz) = sz - 1 \<and>
   length (buffer (ring_init mem sz)) = unat sz \<and>
   ring_space (ring_init mem 8) = 7"
  by (simp add: ring_init_def ring_space_def)

text \<open>
  The sizes 5 and 0 are taken like any other. With 5 the ring reports four free slots
  and accepts a descriptor, yet \<^verbatim>\<open>head\<close> stays 0, so the ring still counts as empty;
  with 0 no slot is allocated and the first enqueue writes outside the block.
\<close>

theorem ring_init_accepts_any_size:
  "ring_init example_mem 5 =
     \<lparr>buffer = [example_mem 0, example_mem 1, example_mem 2, example_mem 3, example_mem 4],
      head = 0, tail = 0, mask_f = 4, size_f = 5\<rparr> \<and>
   ring_space (ring_init example_mem 5) = 4 \<and>
   ring_enqueue (ring_init example_mem 5) example_desc =
     Inr (True,
       \<lparr>buffer = [example_desc, example_mem 1, example_mem 2, example_mem 3, example_mem 4],
        head = 0, tail = 0, mask_f = 4, size_f = 5\<rparr>) \<and>
   ring_init example_mem 0 =
     \<lparr>buffer = [], head = 0, tail = 0, mask_f = 0xFFFFFFFF, size_f = 0\<rparr> \<and>
   ring_enqueue (ring_init example_mem 0) example_desc = Inl SlotOutOfBounds"
  by (simp add: ring_init_def ring_space_def ring_full_def ring_enqueue_def example_mem_def
      upt_conv_Cons)

subsection \<open>Bulk enqueue\<close>

text \<open>
  C4 (bulk partial acceptance). For a ring built for a power-of-two size and an array
  that holds the items the call reads, \<^verbatim>\<open>ring_enqueue_bulk\<close> returns
  \<open>n = min count space\<close>. If \<open>n\<close> is 0 the ring is as before. The descriptors in
  flight afterwards are those before followed by the first \<open>n\<close> items in order, and the
  free space has gone down by \<open>n\<close>; so with \<open>count\<close> above the free space exactly the free
  space is filled. The items array is only read (it is the source of each
  \<^verbatim>\<open>memcpy\<close>), so the function has no new array to return: the items beyond the first
  \<open>n\<close> are as they were.
\<close>

theorem bulk_partial_acceptance:
  assumes "is_pow2 sz" and "reachable sz ring"
    and "unat (min count (ring_space ring)) \<le> length descs"
  shows "\<exists>ring'.
    ring_enqueue_bulk ring descs count = Inr (min count (ring_space ring), ring') \<and>
    (min count (ring_space ring) = 0 \<longrightarrow> ring' = ring) \<and>
    ring_contents ring' = ring_contents ring @ take (unat (min count (ring_space ring))) descs \<and>
    unat (ring_space ring') = unat (ring_space ring) - unat (min count (ring_space ring))"
proof -
  from reachable_inv [OF assms(1,2)] have inv: "ring_inv ring" by simp
  define n where "n = min count (ring_space ring)"
  from ring_enqueue_bulk_inv [OF inv assms(3)] obtain ring' where
    1: "ring_enqueue_bulk ring descs count = Inr (n, ring')" "ring_inv ring'"
    "size_f ring' = size_f ring" "n = 0 \<longrightarrow> ring' = ring"
    "ring_contents ring' = ring_contents ring @ take (unat n) descs"
    unfolding n_def by blast
  have "unat (ring_space ring') = unat (ring_space ring) - unat n"
    using assms(3) by (simp add: unat_ring_space [OF inv] unat_ring_space [OF 1(2)] 1(3,5) n_def)
  with 1 show ?thesis unfolding n_def by blast
qed

text \<open>
  One free slot and two items offered: one is taken, the first, and the ring is full.
\<close>

theorem bulk_partial_acceptance_witness:
  "is_pow2 4 \<and> reachable 4 example_ring \<and>
   unat (min 2 (ring_space example_ring)) \<le> length [example_item 4, example_item 5] \<and>
   (\<exists>ring'.
      ring_enqueue_bulk example_ring [example_item 4, example_item 5] 2 = Inr (1, ring') \<and>
      ring_contents ring' = [example_item 2, example_item 3, example_item 4] \<and>
      unat (ring_space ring') = 0)"
proof -
  have m: "min 2 (ring_space example_ring) = 1"
    by (simp add: example_ring_fields)
  have l: "unat (min 2 (ring_space example_ring)) \<le> length [example_item 4, example_item 5]"
    by (simp add: m)
  from bulk_partial_acceptance [OF is_pow2_4 reachable_example_ring l]
  show ?thesis
    using is_pow2_4 reachable_example_ring l
    by (simp add: m example_ring_fields example_ring_contents)
qed

subsection \<open>Round trip\<close>

text \<open>
  C5 (field fidelity). Enqueue a descriptor \<open>d\<close> into a ring, built for a power-of-two
  size, that is not full: the call returns true. Whatever the producer offers after it,
  once the consumer has dequeued the descriptors that were in flight before \<open>d\<close> and one
  more, every call returned true and the last descriptor it got has the payload
  reference, physical address, length, flags and timestamp of \<open>d\<close>.
\<close>

theorem field_fidelity:
  assumes "is_pow2 sz" and "reachable sz ring" and "\<not> ring_full ring"
  shows "\<exists>ring1 oks ring2 outs ring3 desc'.
    ring_enqueue ring d = Inr (True, ring1) \<and>
    enqueue_seq ring1 ds = Inr (oks, ring2) \<and>
    dequeue_seq ring2 desc (Suc (unat ((head ring - tail ring) AND mask_f ring)))
      = Inr (outs, ring3, desc') \<and>
    length outs = Suc (unat ((head ring - tail ring) AND mask_f ring)) \<and>
    data (last outs) = data d \<and> paddr (last outs) = paddr d \<and> len (last outs) = len d \<and>
    flags (last outs) = flags d \<and> timestamp (last outs) = timestamp d"
proof -
  define m where "m = unat ((head ring - tail ring) AND mask_f ring)"
  from reachable_inv [OF assms(1,2)] have inv: "ring_inv ring" by simp
  have m: "length (ring_contents ring) = m"
    by (simp add: length_ring_contents m_def)
  from ring_enqueue_not_full [OF inv assms(3), of d] obtain ring1 where
    1: "ring_enqueue ring d = Inr (True, ring1)" "ring_inv ring1"
    "ring_contents ring1 = ring_contents ring @ [d]"
    by blast
  from enqueue_seq_inv [OF 1(2), of ds] obtain oks ring2 where
    2: "enqueue_seq ring1 ds = Inr (oks, ring2)" "ring_inv ring2"
    "ring_contents ring2 = ring_contents ring1 @ accepted ds oks"
    by blast
  define outs where "outs = take (Suc m) (ring_contents ring2)"
  from dequeue_seq_inv [OF 2(2), of desc "Suc m"] obtain ring3 desc' where
    3: "dequeue_seq ring2 desc (Suc m) = Inr (outs, ring3, desc')"
    unfolding outs_def by blast
  have "outs = ring_contents ring @ [d]"
    by (simp add: outs_def 2(3) 1(3) m)
  then have "length outs = Suc m" "last outs = d"
    by (simp_all add: m)
  with 1(1) 2(1) 3 show ?thesis
    unfolding m_def by auto
qed

text \<open>
  Two descriptors in flight in four slots: the new one fills the ring, a further one is
  refused, and the third dequeue returns the new one.
\<close>

theorem field_fidelity_witness:
  "is_pow2 4 \<and> reachable 4 example_ring \<and> \<not> ring_full example_ring \<and>
   (\<exists>ring1 oks ring2 outs ring3 desc'.
      ring_enqueue example_ring (example_item 4) = Inr (True, ring1) \<and>
      enqueue_seq ring1 [example_item 5] = Inr (oks, ring2) \<and>
      dequeue_seq ring2 example_desc (Suc 2) = Inr (outs, ring3, desc') \<and>
      length outs = Suc 2 \<and>
      data (last outs) = data (example_item 4) \<and> paddr (last outs) = paddr (example_item 4) \<and>
      len (last outs) = len (example_item 4) \<and> flags (last outs) = flags (example_item 4) \<and>
      timestamp (last outs) = timestamp (example_item 4))"
proof -
  have m: "unat ((head example_ring - tail example_ring) AND mask_f example_ring) = 2"
    by (simp add: example_ring_fields)
  from field_fidelity [OF is_pow2_4 reachable_example_ring example_ring_fields(5),
      of "example_item 4" "[example_item 5]" example_desc]
  show ?thesis
    unfolding m using is_pow2_4 reachable_example_ring example_ring_fields(5) by blast
qed

subsection \<open>Free space\<close>

text \<open>
  C6 (space accounting). Start from an empty ring built for a power-of-two size
  \<open>sz\<close> and make any single enqueue and dequeue calls, in any order; let \<open>k\<close> enqueues
  and \<open>j\<close> dequeues have returned true. Then \<open>j \<le> k\<close>, \<open>k - j \<le> sz - 1\<close>,
  \<^verbatim>\<open>ring_space\<close> is \<open>sz - 1 - (k - j)\<close>, and it is \<open>sz - ((head - tail) & mask) - 1\<close>
  with the mask \<open>sz - 1\<close>.
\<close>

theorem space_accounting:
  assumes "is_pow2 sz" and "reachable sz ring" and "ring_empty ring"
  shows "\<exists>k j ring'. run_calls ring desc cs = Inr (k, j, ring') \<and>
    j \<le> k \<and> k - j \<le> unat sz - 1 \<and>
    unat (ring_space ring') = unat sz - 1 - (k - j) \<and>
    ring_space ring' = sz - ((head ring' - tail ring') AND (sz - 1)) - 1"
proof -
  from reachable_inv [OF assms(1,2)] have inv: "ring_inv ring" and sz: "size_f ring = sz"
    by simp_all
  with assms(3) have e: "ring_contents ring = []"
    by (simp add: ring_empty_iff)
  from run_calls_inv [OF inv, of desc cs] obtain k j ring' where
    1: "run_calls ring desc cs = Inr (k, j, ring')" "ring_inv ring'" "size_f ring' = sz"
    "length (ring_contents ring') + j = k"
    by (auto simp: e sz)
  from 1(4) have "j \<le> k" and c: "length (ring_contents ring') = k - j" by simp_all
  moreover have "k - j \<le> unat sz - 1"
    using count_less_size [OF 1(2)] by (simp add: c 1(3))
  moreover have "unat (ring_space ring') = unat sz - 1 - (k - j)"
    by (simp add: unat_ring_space [OF 1(2)] c 1(3))
  moreover have "ring_space ring' = sz - ((head ring' - tail ring') AND (sz - 1)) - 1"
    using ring_inv_facts(2) [OF 1(2)] by (simp add: ring_space_def 1(3))
  ultimately show ?thesis using 1(1) by blast
qed

text \<open>
  Four slots, five enqueues of which the fourth finds the ring full, two dequeues:
  four and two calls succeed, and one slot is free.
\<close>

theorem space_accounting_witness:
  "is_pow2 4 \<and> reachable 4 (ring_init example_mem 4) \<and>
   ring_empty (ring_init example_mem 4) \<and>
   (\<exists>ring'.
      run_calls (ring_init example_mem 4) example_desc
        [Enqueue (example_item 1), Enqueue (example_item 2), Enqueue (example_item 3),
         Enqueue (example_item 4), Dequeue, Dequeue, Enqueue (example_item 5)]
        = Inr (4, 2, ring') \<and>
      unat (ring_space ring') = 1)"
proof -
  let ?cs = "[Enqueue (example_item 1), Enqueue (example_item 2), Enqueue (example_item 3),
    Enqueue (example_item 4), Dequeue, Dequeue, Enqueue (example_item 5)]"
  let ?r = "\<lparr>buffer = [example_item 1, example_item 2, example_item 3, example_item 5],
    head = 0, tail = 2, mask_f = 3, size_f = 4\<rparr>"
  have e: "ring_empty (ring_init example_mem 4)"
    by (simp add: ring_init_def ring_empty_def)
  have s: "run_calls (ring_init example_mem 4) example_desc ?cs = Inr (4, 2, ?r)"
    by (simp add: ring_defs upt_conv_Cons)
  from space_accounting [OF is_pow2_4 reachable_init_4 e, of example_desc ?cs]
  obtain k j ring' where
    a: "run_calls (ring_init example_mem 4) example_desc ?cs = Inr (k, j, ring')" and
    b: "unat (ring_space ring') = unat (4 :: u32) - 1 - (k - j)"
    by blast
  from a [unfolded s] have c: "k = 4" "j = 2" "ring' = ?r"
    by simp_all
  from b have "unat (ring_space ?r) = 1"
    unfolding c by simp
  with s is_pow2_4 reachable_init_4 e show ?thesis by blast
qed

subsection \<open>Indices\<close>

text \<open>
  C7 (index arithmetic), as the code has it. In a ring built for a power-of-two size
  \<open>sz\<close>, an enqueue that returns true stores \<^verbatim>\<open>(head + 1) & mask\<close> as the new head,
  which is \<open>(head + 1) mod sz\<close>, and leaves the tail; a dequeue that returns true
  stores \<^verbatim>\<open>(tail + 1) & mask\<close> as the new tail, which is \<open>(tail + 1) mod sz\<close>, and
  leaves the head. The stored indices are slot numbers below the size and go back to
  0 at the size; they are not counters that run on to the 32-bit boundary.
\<close>

theorem index_arithmetic:
  assumes "is_pow2 sz" and "reachable sz ring"
  shows "(ring_enqueue ring d = Inr (True, ring') \<longrightarrow>
      head ring' = (head ring + 1) AND mask_f ring \<and>
      unat (head ring') = (unat (head ring) + 1) mod unat sz \<and> tail ring' = tail ring) \<and>
    (ring_dequeue ring desc = Inr (True, ring'', desc') \<longrightarrow>
      tail ring'' = (tail ring + 1) AND mask_f ring \<and>
      unat (tail ring'') = (unat (tail ring) + 1) mod unat sz \<and> head ring'' = head ring)"
proof -
  from reachable_inv [OF assms] have inv: "ring_inv ring" and sz: "size_f ring = sz"
    by simp_all
  note s = unat_index_succ [OF inv, unfolded sz]
  show ?thesis
    by (auto simp: ring_enqueue_def ring_dequeue_def Let_def s split: if_splits)
qed

text \<open>With head 3 and tail 1 in four slots, the head goes to 0 and the tail to 2.\<close>

theorem index_arithmetic_witness:
  "is_pow2 4 \<and> reachable 4 example_ring \<and>
   ring_enqueue example_ring (example_item 4) =
     Inr (True, \<lparr>buffer = [example_item 1, example_item 2, example_item 3, example_item 4],
       head = 0, tail = 1, mask_f = 3, size_f = 4\<rparr>) \<and>
   (0 :: u32) = (head example_ring + 1) AND mask_f example_ring \<and>
   unat (0 :: u32) = (unat (head example_ring) + 1) mod unat (4 :: u32) \<and>
   ring_dequeue example_ring example_desc =
     Inr (True, \<lparr>buffer = [example_item 1, example_item 2, example_item 3, example_mem 3],
       head = 3, tail = 2, mask_f = 3, size_f = 4\<rparr>, example_item 2) \<and>
   (2 :: u32) = (tail example_ring + 1) AND mask_f example_ring \<and>
   unat (2 :: u32) = (unat (tail example_ring) + 1) mod unat (4 :: u32)"
proof -
  let ?r' = "\<lparr>buffer = [example_item 1, example_item 2, example_item 3, example_item 4],
    head = 0, tail = 1, mask_f = 3, size_f = 4\<rparr>"
  let ?r'' = "\<lparr>buffer = [example_item 1, example_item 2, example_item 3, example_mem 3],
    head = 3, tail = 2, mask_f = 3, size_f = 4\<rparr>"
  have e: "ring_enqueue example_ring (example_item 4) = Inr (True, ?r')"
    by (simp add: ring_enqueue_def ring_full_def example_ring_def)
  have d: "ring_dequeue example_ring example_desc = Inr (True, ?r'', example_item 2)"
    by (simp add: ring_dequeue_def ring_empty_def example_ring_def)
  from index_arithmetic [OF is_pow2_4 reachable_example_ring,
      of "example_item 4" ?r' example_desc ?r'' "example_item 2"] e d
  have "head ?r' = (head example_ring + 1) AND mask_f example_ring"
    and "unat (head ?r') = (unat (head example_ring) + 1) mod unat (4 :: u32)"
    and "tail ?r'' = (tail example_ring + 1) AND mask_f example_ring"
    and "unat (tail ?r'') = (unat (tail example_ring) + 1) mod unat (4 :: u32)"
    by blast+
  then have "(0 :: u32) = (head example_ring + 1) AND mask_f example_ring"
    and "unat (0 :: u32) = (unat (head example_ring) + 1) mod unat (4 :: u32)"
    and "(2 :: u32) = (tail example_ring + 1) AND mask_f example_ring"
    and "unat (2 :: u32) = (unat (tail example_ring) + 1) mod unat (4 :: u32)"
    by (simp_all only: ring_buffer.simps)
  with e d is_pow2_4 reachable_example_ring show ?thesis by blast
qed

text \<open>
  The same enqueue against the claim as the specification words it: in this ring,
  which a program can reach, the head was 3, the call returns true, and the head
  stored is 0, not 4.
\<close>

theorem head_wraps_at_size:
  "ring_enqueue example_ring (example_item 4) =
     Inr (True, \<lparr>buffer = [example_item 1, example_item 2, example_item 3, example_item 4],
       head = 0, tail = 1, mask_f = 3, size_f = 4\<rparr>) \<and>
   head example_ring + 1 = 4 \<and> (0 :: u32) \<noteq> 4 \<and> reachable 4 example_ring"
  using reachable_example_ring
  by (simp add: ring_enqueue_def ring_full_def example_ring_def)

text \<open>
  C9 (indices within the block). In every ring that \<^verbatim>\<open>ring_init\<close> built for a size
  other than 0 and that enqueues, dequeues and bulk enqueues have worked on, the stored
  head and tail are below the size, the block has as many slots as the size says, and
  so no call of \<^verbatim>\<open>ring_enqueue\<close>, \<^verbatim>\<open>ring_dequeue\<close> or \<^verbatim>\<open>ring_enqueue_bulk\<close> reaches
  outside the block. The size need not be a power of two for this.
\<close>

theorem index_bounds:
  assumes "sz \<noteq> 0" and "reachable sz ring"
  shows "head ring < size_f ring \<and> tail ring < size_f ring \<and>
    length (buffer ring) = unat (size_f ring) \<and>
    ring_enqueue ring d \<noteq> Inl SlotOutOfBounds \<and>
    ring_dequeue ring desc \<noteq> Inl SlotOutOfBounds \<and>
    ring_enqueue_bulk ring descs count \<noteq> Inl SlotOutOfBounds"
proof -
  from reachable_bounds [OF assms] have b: "ring_bounds sz ring" .
  note m = ring_bounds_mask [OF assms(1) b]
  from b have l: "length (buffer ring) = unat (size_f ring)"
    by (simp add: ring_bounds_def)
  have "unat (head ring) < length (buffer ring)" "unat (tail ring) < length (buffer ring)"
    using m(2,3) by (simp_all add: l word_less_nat_alt)
  then have "ring_enqueue ring d \<noteq> Inl SlotOutOfBounds"
    and "ring_dequeue ring desc \<noteq> Inl SlotOutOfBounds"
    by (simp_all add: ring_enqueue_def ring_dequeue_def Let_def)
  moreover have "ring_enqueue_bulk ring descs count \<noteq> Inl SlotOutOfBounds"
    using enqueue_bulk_loop_no_slot_fault [OF m(1)]
    by (auto simp: ring_enqueue_bulk_def Let_def split: sum.splits)
  ultimately show ?thesis using m(2,3) l by simp
qed

text \<open>The ring of four slots with head 3 and tail 1.\<close>

theorem index_bounds_witness:
  "(4 :: u32) \<noteq> 0 \<and> reachable 4 example_ring \<and>
   head example_ring < size_f example_ring \<and> tail example_ring < size_f example_ring \<and>
   length (buffer example_ring) = unat (size_f example_ring) \<and>
   ring_enqueue example_ring (example_item 4) \<noteq> Inl SlotOutOfBounds \<and>
   ring_dequeue example_ring example_desc \<noteq> Inl SlotOutOfBounds \<and>
   ring_enqueue_bulk example_ring [example_item 4, example_item 5] 2 \<noteq> Inl SlotOutOfBounds"
proof -
  have z: "(4 :: u32) \<noteq> 0" by simp
  from index_bounds [OF z reachable_example_ring] z reachable_example_ring
  show ?thesis by blast
qed

end
